theory Spec2Isabelle
  imports Main "HOL-Library.Word" "HOL-Library.Monad_Syntax"
begin

unbundle bit_operations_syntax

section \<open>Machine types\<close>

text \<open>
  \<open>unsigned\<close> and \<open>uint32_t\<close> are 32-bit words (the source asserts
  \<open>sizeof(x) == 4\<close> and \<open>CHAR_BIT == 8\<close>); \<open>int\<close> is a 32-bit word read in two's
  complement by \<open>sint\<close>. The counts the functions return lie in \<open>0..32\<close>; where
  the source holds them in an \<open>int\<close> they are modelled as \<open>int\<close>, where it holds
  them in an \<open>unsigned\<close> as a word.
\<close>

type_synonym uint32 = "32 word"
type_synonym int32 = "32 word"

section \<open>The contract of count-trailing-zeros\<close>

text \<open>
  The index, counted from the least significant end, of the lowest set bit of \<open>x\<close>,
  and 32 when no bit is set.
\<close>

definition count_trailing_zeros :: "uint32 \<Rightarrow> nat" where
  "count_trailing_zeros x = (case List.find (bit x) [0..<32] of None \<Rightarrow> 32 | Some i \<Rightarrow> i)"

section \<open>The software implementations of CTZ\<close>

subsection \<open>Linear scan\<close>

text \<open>
  \<open>for (auto bit = 0u; bit < bits; ++bit) { if (x & 1) return bit; x >>= 1; } return bits;\<close>
  with \<open>bits = 32\<close>. The loop is entered with the counter \<open>i\<close> (the source's \<open>bit\<close>).
\<close>

function ctz_simple_loop :: "uint32 \<Rightarrow> uint32 \<Rightarrow> uint32" where
  "ctz_simple_loop x i =
     (if unat i < 32
      then (if x AND 1 \<noteq> 0 then i else ctz_simple_loop (drop_bit 1 x) (i + 1))
      else 32)"
  by pat_completeness auto
termination
  by (relation "measure (\<lambda>(x, i). 32 - unat i)") (auto simp: unat_word_ariths)

definition ctz_simple :: "uint32 \<Rightarrow> uint32" where
  "ctz_simple x = ctz_simple_loop x 0"

subsection \<open>Population count\<close>

definition broadcast :: "8 word \<Rightarrow> uint32" where
  "broadcast x = ((NOT 0) div 0xff) * ucast x"

definition popcnt :: "uint32 \<Rightarrow> uint32" where
  "popcnt x =
     (let b_0x01 = broadcast 0x01;
          b_0x55 = broadcast 0x55;
          b_0x33 = broadcast 0x33;
          b_0x0f = broadcast 0x0f;
          x1 = x - (drop_bit 1 x AND b_0x55);
          x2 = (x1 AND b_0x33) + (drop_bit 2 x1 AND b_0x33);
          x3 = (x2 + drop_bit 4 x2) AND b_0x0f
      in drop_bit ((4 - 1) * 8) (x3 * b_0x01))"

definition ctz_bits :: "uint32 \<Rightarrow> uint32" where
  "ctz_bits x = popcnt ((x AND - x) - 1)"

subsection \<open>Binary search\<close>

text \<open>The accumulator \<open>n\<close> is an \<open>int\<close>; the result is converted to \<open>unsigned\<close>.\<close>

definition ctz_bsearch :: "uint32 \<Rightarrow> uint32" where
  "ctz_bsearch x =
     (if x = 0 then 32
      else
        let n = (0 :: int);
            (n, x) = (if x AND 0x0000FFFF = 0 then (n + 16, drop_bit 16 x) else (n, x));
            (n, x) = (if x AND 0x000000FF = 0 then (n + 8, drop_bit 8 x) else (n, x));
            (n, x) = (if x AND 0x0000000F = 0 then (n + 4, drop_bit 4 x) else (n, x));
            (n, x) = (if x AND 0x00000003 = 0 then (n + 2, drop_bit 2 x) else (n, x));
            n = (if x AND 0x00000001 = 0 then n + 1 else n)
        in word_of_int n)"

subsection \<open>De Bruijn multiplication\<close>

definition debruijn32 :: uint32 where
  "debruijn32 = 0x077CB531"

definition index32 :: "int list" where
  "index32 =
     [0,  1,  28, 2,  29, 14, 24, 3, 30, 22, 20, 15, 25, 17, 4,  8,
      31, 27, 13, 23, 21, 19, 16, 7, 26, 12, 18, 6,  11, 5,  10, 9]"

text \<open>
  The index is masked with \<open>0x1F\<close>, so the read of the 32-entry table is always in
  range.
\<close>

definition ctz_debruijn :: "uint32 \<Rightarrow> int" where
  "ctz_debruijn x =
     (if x = 0 then 32
      else index32 ! unat (drop_bit 27 ((x AND - x) * debruijn32) AND 0x1F))"

section \<open>The CTZ the solver is built with\<close>

text \<open>
  The source selects \<open>ctz\<close> by the preprocessor. Three selections build a program:
  \<^item> \<open>__GNUC__\<close>: \<open>ctz(x) = __builtin_ctz(x)\<close>, with no guard for zero;
  \<^item> \<open>strings.h\<close>: zero is answered with 32, everything else with \<open>ffs(x) - 1\<close>;
  \<^item> otherwise: \<open>ctz = ctz_debruijn\<close>.
  The fourth, \<open>_MSC_VER\<close>, is announced by the source as untested (\<open>#warning\<close>) and
  hands an \<open>int*\<close> to an intrinsic that takes an \<open>unsigned long*\<close>, which a C++
  compiler rejects; it is modelled on its own below (\<open>ctz_msc\<close>) and is not one of
  the builds the solver's theorems range over.
\<close>

datatype toolchain = GNUC | STRINGS_H | PORTABLE

text \<open>
  Modelled from the spec: \<open>__builtin_ctz\<close> is the compiler's primitive, not code of
  the repository. On a nonzero operand it is the CTZ contract (the number of trailing
  zero bits); on zero its result is undefined, which is the value \<open>None\<close>.
\<close>

definition builtin_ctz :: "uint32 \<Rightarrow> int option" where
  "builtin_ctz x = (if x = 0 then None else Some (int (count_trailing_zeros x)))"

text \<open>
  Modelled from the spec: \<open>ffs\<close> is the C library's find-first-set, not code of the
  repository: one plus the index of the lowest set bit, and 0 when no bit is set.
\<close>

definition ffs :: "int32 \<Rightarrow> int" where
  "ffs i = (if i = 0 then 0 else int (count_trailing_zeros i) + 1)"

text \<open>
  Modelled from the spec: \<open>_BitScanReverse\<close> is the compiler's intrinsic, not code of
  the repository: it searches from the most significant bit and stores the index of
  the highest set bit.
\<close>

definition BitScanReverse :: "uint32 \<Rightarrow> int" where
  "BitScanReverse x = (case List.find (bit x) (rev [0..<32]) of None \<Rightarrow> 0 | Some i \<Rightarrow> int i)"

definition ctz_msc :: "uint32 \<Rightarrow> int" where
  "ctz_msc x = (if x = 0 then 32 else BitScanReverse x)"

definition ctz :: "toolchain \<Rightarrow> uint32 \<Rightarrow> int option" where
  "ctz tc x =
     (case tc of
        GNUC \<Rightarrow> builtin_ctz x
      | STRINGS_H \<Rightarrow> (if x = 0 then Some 32 else let fs = ffs x in Some (fs - 1))
      | PORTABLE \<Rightarrow> Some (ctz_debruijn x))"

definition cto :: "toolchain \<Rightarrow> uint32 \<Rightarrow> int option" where
  "cto tc x = ctz tc (NOT x)"

section \<open>The solver\<close>

text \<open>
  \<open>n >>= k\<close> on a 32-bit unsigned \<open>n\<close> with an \<open>int\<close> amount \<open>k\<close>: a logical shift,
  defined only for \<open>0 \<le> k < 32\<close>.
\<close>

definition shift_right :: "uint32 \<Rightarrow> int \<Rightarrow> uint32 option" where
  "shift_right n k = (if 0 \<le> k \<and> k < 32 then Some (drop_bit (nat k) n) else None)"

text \<open>
  How a call can end without a value: \<open>Out_of_range\<close> is the exception
  \<open>std::out_of_range\<close> that \<open>solution\<close> throws; \<open>Undefined_behaviour\<close> stands for an
  execution the language gives no meaning (the builtin at zero, a shift by 32 or more).
\<close>

datatype error = Out_of_range | Undefined_behaviour

text \<open>
  The two statements before the loop: \<open>n >>= ctz(n); n >>= cto(n);\<close>
\<close>

definition strip_trailing :: "toolchain \<Rightarrow> uint32 \<Rightarrow> uint32 option" where
  "strip_trailing tc n =
     do {
       tz \<leftarrow> ctz tc n;
       n \<leftarrow> shift_right n tz;
       k \<leftarrow> cto tc n;
       shift_right n k
     }"

text \<open>One pass through the body of the \<open>while\<close> loop, on the pair \<open>(n, max)\<close>.\<close>

definition loop_body :: "toolchain \<Rightarrow> uint32 \<times> int \<Rightarrow> (uint32 \<times> int) option" where
  "loop_body tc s =
     (case s of (n, mx) \<Rightarrow>
        do {
          tz \<leftarrow> ctz tc n;
          let mx = max tz mx;
          n \<leftarrow> shift_right n tz;
          k \<leftarrow> cto tc n;
          n \<leftarrow> shift_right n k;
          Some (n, mx)
        })"

function while_loop :: "toolchain \<Rightarrow> uint32 \<times> int \<Rightarrow> int option" where
  "while_loop tc s =
     (if fst s \<noteq> 0 then loop_body tc s \<bind> while_loop tc else Some (snd s))"
  by pat_completeness auto

definition solution :: "toolchain \<Rightarrow> int32 \<Rightarrow> error + int" where
  "solution tc N =
     (if sint N < 1 then Inl Out_of_range
      else
        case strip_trailing tc N \<bind> (\<lambda>n. while_loop tc (n, 0)) of
          None \<Rightarrow> Inl Undefined_behaviour
        | Some mx \<Rightarrow> Inr mx)"

text \<open>
  The state at the head of the loop after exactly \<open>k\<close> passes through its body, started
  from \<open>s\<close>: \<open>None\<close> when the loop has left before, or a pass is undefined.
\<close>

primrec iterations :: "nat \<Rightarrow> toolchain \<Rightarrow> uint32 \<times> int \<Rightarrow> (uint32 \<times> int) option" where
  "iterations 0 tc s = Some s"
| "iterations (Suc k) tc s =
     (if fst s \<noteq> 0 then loop_body tc s \<bind> iterations k tc else None)"

text \<open>
  The operands handed to \<open>ctz\<close> by the statement pair \<open>n >>= ctz(n); n >>= cto(n);\<close>
  run from \<open>n\<close>: \<open>n\<close> itself, and the complement of the shifted value when the
  first shift is defined. The pair stands before the loop and ends its body.
\<close>

definition ctz_operands :: "toolchain \<Rightarrow> uint32 \<Rightarrow> uint32 list" where
  "ctz_operands tc n =
     n # (case ctz tc n \<bind> shift_right n of None \<Rightarrow> [] | Some n' \<Rightarrow> [NOT n'])"

section \<open>Binary gaps\<close>

text \<open>
  A binary gap of \<open>x\<close> that starts at bit \<open>i\<close> and is \<open>k\<close> bits long: a run of zero
  bits with a one bit immediately below it and a one bit immediately above it (so the
  run is maximal).
\<close>

definition binary_gap :: "uint32 \<Rightarrow> nat \<Rightarrow> nat \<Rightarrow> bool" where
  "binary_gap x i k \<longleftrightarrow>
     0 < i \<and> 0 < k \<and> bit x (i - 1) \<and> (\<forall>j\<in>{i..<i + k}. \<not> bit x j) \<and> bit x (i + k)"

text \<open>
  The lengths of all gaps of \<open>x\<close>. A gap ends below bit 32, so the bounds lose none
  (lemma \<open>gap_lengths_set\<close>).
\<close>

definition gap_lengths :: "uint32 \<Rightarrow> nat list" where
  "gap_lengths x = [k. i \<leftarrow> [1..<32], k \<leftarrow> [1..<32 - i], binary_gap x i k]"

definition longest_binary_gap :: "uint32 \<Rightarrow> nat" where
  "longest_binary_gap x = Max (set (0 # gap_lengths x))"

text \<open>
  At most one contiguous run of one bits: \<open>a\<close> ones shifted up by \<open>b\<close> places (powers
  of two have \<open>a = 1\<close>, all-ones patterns \<open>b = 0\<close>).
\<close>

definition single_run :: "uint32 \<Rightarrow> bool" where
  "single_run x \<longleftrightarrow> (\<exists>b\<in>set [0..<32]. \<exists>a\<in>set [0..<33]. x = push_bit b (mask a))"

section \<open>Notions used in the proofs\<close>

text \<open>\<open>k\<close> is the index of the lowest set bit of \<open>x\<close>.\<close>

definition lowest_set :: "uint32 \<Rightarrow> nat \<Rightarrow> bool" where
  "lowest_set x k \<longleftrightarrow> bit x k \<and> (\<forall>j<k. \<not> bit x j)"

text \<open>The length of the run of one bits that follows the trailing zeros of \<open>n\<close>.\<close>

definition ones_above :: "uint32 \<Rightarrow> nat" where
  "ones_above n = count_trailing_zeros (NOT (drop_bit (count_trailing_zeros n) n))"

text \<open>
  The loop's value \<open>n\<close> is what is left of \<open>N\<close> above bit \<open>p\<close>, the bit just below
  is a one and bit \<open>p\<close> itself is a zero.
\<close>

definition at_position :: "uint32 \<Rightarrow> nat \<Rightarrow> uint32 \<Rightarrow> bool" where
  "at_position N p n \<longleftrightarrow> 0 < p \<and> n = drop_bit p N \<and> bit N (p - 1) \<and> \<not> bit N p"

section \<open>The lowest set bit\<close>

lemma find_upt_lowest:
  "(\<forall>j<k. \<not> P j) \<Longrightarrow> P k \<Longrightarrow> k < n \<Longrightarrow> List.find P [0..<n] = Some k"
  by (auto simp: find_Some_iff intro!: exI[of _ k])

lemma odd_and_minus: 
  fixes y :: "'a::len word"
  assumes "odd y" shows "y AND - y = 1"
proof (rule bit_word_eqI)
  fix n assume n: "n < LENGTH('a)"
  have e: "even (y - 1)" using assms by simp
  have "bit y n \<longleftrightarrow> bit (y - 1) n \<or> n = 0"
    using assms by (rule odd_bit_iff_bit_pred)
  moreover have "\<not> bit (y - 1) 0" using e by (simp add: bit_0)
  ultimately show "bit (y AND - y) n \<longleftrightarrow> bit (1::'a word) n"
    using n by (auto simp: minus_eq_not_minus_1 bit_and_iff bit_not_iff bit_1_iff)
qed

lemma lowest_set_take_bit: "lowest_set x k \<Longrightarrow> take_bit k x = 0"
  by (rule bit_word_eqI) (simp add: lowest_set_def bit_take_bit_iff)

lemma lowest_and_minus: 
  assumes "lowest_set x k" shows "x AND - x = push_bit k 1"
proof -
  define y where "y = drop_bit k x"
  have x: "x = push_bit k y"
    using bits_ident[of k x] lowest_set_take_bit[OF assms] by (simp add: y_def)
  have "odd y" using assms by (simp add: y_def lowest_set_def bit_iff_odd_drop_bit)
  then have "y AND - y = 1" by (rule odd_and_minus)
  then have "push_bit k y AND push_bit k (- y) = push_bit k 1"
    by (simp flip: push_bit_and)
  then show ?thesis by (simp add: x push_bit_minus)
qed

lemma ex_lowest_set: "x \<noteq> 0 \<Longrightarrow> \<exists>k. lowest_set x k"
proof -
  assume "x \<noteq> 0"
  then obtain n where n: "bit x n" by (auto simp: bit_eq_iff)
  define k where "k = (LEAST n. bit x n)"
  have "bit x k" unfolding k_def using n by (rule LeastI)
  moreover have "\<forall>j<k. \<not> bit x j" unfolding k_def using not_less_Least by blast
  ultimately show ?thesis by (auto simp: lowest_set_def)
qed

lemma lowest_set_unique: "lowest_set x k \<Longrightarrow> lowest_set x k' \<Longrightarrow> k = k'"
  by (metis lowest_set_def linorder_neqE_nat)

lemma lowest_set_less: "lowest_set x k \<Longrightarrow> k < 32"
  using bit_imp_le_length[of x k] by (simp add: lowest_set_def)

lemma lowest_set_nonzero: "lowest_set x k \<Longrightarrow> x \<noteq> 0"
  by (auto simp: lowest_set_def)

lemma count_trailing_zeros_lowest: "lowest_set x k \<Longrightarrow> count_trailing_zeros x = k"
  using find_upt_lowest[of k "bit x" 32] lowest_set_less[of x k]
  by (simp add: count_trailing_zeros_def lowest_set_def)

lemma count_trailing_zeros_0: "count_trailing_zeros 0 = 32"
  by (simp add: count_trailing_zeros_def find_None_iff[THEN iffD2])

lemma lowest_set_count: "x \<noteq> 0 \<Longrightarrow> lowest_set x (count_trailing_zeros x)"
  using ex_lowest_set[of x] count_trailing_zeros_lowest[of x] by auto

subsection \<open>The De Bruijn lookup meets the contract\<close>

lemma index32_in_range: "unat (y AND 0x1F) < length index32" for y :: uint32
proof -
  have "y AND 0x1F \<le> 0x1F" by (rule word_and_le1)
  then have "unat (y AND 0x1F) \<le> unat (0x1F :: uint32)" by (simp only: word_le_nat_alt)
  then show ?thesis by (simp add: index32_def)
qed

lemma debruijn_table: "list_all (\<lambda>k. index32 ! unat (drop_bit 27 (push_bit k 1 * debruijn32) AND 0x1F) = int k) [0..<32]"
  by code_simp

lemma ctz_debruijn_lowest: 
  assumes "lowest_set x k" shows "ctz_debruijn x = int k"
proof -
  have "k \<in> set [0..<32]" using lowest_set_less[OF assms] by simp
  with debruijn_table have "index32 ! unat (drop_bit 27 (push_bit k 1 * debruijn32) AND 0x1F) = int k"
    unfolding list_all_iff by blast
  then show ?thesis
    using lowest_set_nonzero[OF assms] by (simp add: ctz_debruijn_def lowest_and_minus[OF assms])
qed

lemma ctz_debruijn_contract: "ctz_debruijn x = int (count_trailing_zeros x)"
proof (cases "x = 0")
  case True
  then show ?thesis by (simp add: ctz_debruijn_def count_trailing_zeros_0)
next
  case False
  then show ?thesis using ctz_debruijn_lowest[OF lowest_set_count] by simp
qed

subsection \<open>The population count meets the contract\<close>

lemma popcnt_mask: "list_all (\<lambda>k. popcnt (mask k) = of_nat k) [0..<33]"
  by code_simp

lemma ctz_bits_contract: "ctz_bits x = of_nat (count_trailing_zeros x)"
proof (cases "x = 0")
  case True
  have "32 \<in> set [0..<33::nat]" by simp
  with popcnt_mask have "popcnt (mask 32) = of_nat 32" unfolding list_all_iff by blast
  moreover have "(mask 32 :: uint32) = - 1" by (simp add: mask_eq_exp_minus_1)
  ultimately show ?thesis using True by (simp add: ctz_bits_def count_trailing_zeros_0)
next
  case False
  define k where "k = count_trailing_zeros x"
  have l: "lowest_set x k" using False by (simp add: k_def lowest_set_count)
  have "k \<in> set [0..<33]" using lowest_set_less[OF l] by simp
  with popcnt_mask have "popcnt (mask k) = of_nat k" unfolding list_all_iff by blast
  moreover have "(x AND - x) - 1 = mask k"
    by (simp add: lowest_and_minus[OF l] mask_eq_exp_minus_1 push_bit_of_1)
  ultimately show ?thesis by (simp add: ctz_bits_def k_def)
qed

subsection \<open>The linear scan meets the contract\<close>

declare ctz_simple_loop.simps [simp del]

lemma and_1_bit0: "(x AND 1 \<noteq> 0) \<longleftrightarrow> bit x 0" for x :: uint32
  by (simp add: and_one_eq bit_0 mod_2_eq_odd)

lemma lowest_set_0: "lowest_set x 0 \<longleftrightarrow> bit x 0"
  by (simp add: lowest_set_def)

lemma lowest_set_drop:
  "lowest_set x k \<Longrightarrow> m \<le> k \<Longrightarrow> lowest_set (drop_bit m x) (k - m)"
  by (auto simp: lowest_set_def bit_drop_bit_eq)

lemma lowest_set_Suc_bit0: "lowest_set x (Suc k) \<Longrightarrow> \<not> bit x 0"
  by (simp add: lowest_set_def)

lemma ctz_simple_loop_lowest:
  "lowest_set x k \<Longrightarrow> unat i + k < 32 \<Longrightarrow> ctz_simple_loop x i = i + of_nat k"
proof (induction k arbitrary: x i)
  case 0
  then show ?case by (simp add: lowest_set_0 and_1_bit0 ctz_simple_loop.simps[of x i])
next
  case (Suc k)
  have l: "lowest_set (drop_bit 1 x) k"
    using lowest_set_drop[OF Suc.prems(1), of 1] by simp
  have u: "unat (i + 1) = unat i + 1"
    using Suc.prems(2) by (simp add: unat_word_ariths)
  have "ctz_simple_loop (drop_bit 1 x) (i + 1) = (i + 1) + of_nat k"
    using Suc.IH[OF l, of "i + 1"] Suc.prems(2) u by simp
  moreover have "\<not> bit x 0" using Suc.prems(1) by (rule lowest_set_Suc_bit0)
  ultimately show ?case
    using Suc.prems(2) and_1_bit0[of x] by (simp del: ctz_simple_loop.simps add: ctz_simple_loop.simps[of x i])
qed

lemma ctz_simple_loop_0: "unat i \<le> 32 \<Longrightarrow> ctz_simple_loop 0 i = 32"
proof (induction "32 - unat i" arbitrary: i)
  case 0
  then show ?case by (simp add: ctz_simple_loop.simps[of 0 i])
next
  case (Suc d)
  have u: "unat (i + 1) = unat i + 1"
    using Suc.hyps(2) by (simp add: unat_word_ariths)
  have "ctz_simple_loop 0 (i + 1) = 32"
    using Suc.hyps(1)[of "i + 1"] Suc.hyps(2) u by simp
  then show ?case
    by (simp del: ctz_simple_loop.simps add: ctz_simple_loop.simps[of 0 i])
qed

lemma ctz_simple_contract: "ctz_simple x = of_nat (count_trailing_zeros x)"
proof (cases "x = 0")
  case True
  then show ?thesis by (simp add: ctz_simple_def ctz_simple_loop_0 count_trailing_zeros_0 del: ctz_simple_loop.simps)
next
  case False
  define k where "k = count_trailing_zeros x"
  have l: "lowest_set x k" using False by (simp add: k_def lowest_set_count)
  show ?thesis
    using ctz_simple_loop_lowest[OF l, of 0] lowest_set_less[OF l]
    by (simp add: ctz_simple_def k_def del: ctz_simple_loop.simps)
qed

subsection \<open>The binary search meets the contract\<close>

lemma and_mask_0_iff:
  assumes "x \<noteq> 0" shows "(x AND mask m = 0) \<longleftrightarrow> m \<le> count_trailing_zeros x"
proof -
  define k where "k = count_trailing_zeros x"
  have l: "lowest_set x k" using assms by (simp add: k_def lowest_set_count)
  have "(x AND mask m = 0) \<longleftrightarrow> (\<forall>j<m. \<not> bit x j)"
  proof
    assume z: "x AND mask m = 0"
    show "\<forall>j<m. \<not> bit x j"
    proof (intro allI impI notI)
      fix j assume "j < m" "bit x j"
      then have "bit (x AND mask m) j"
        using bit_imp_le_length[of x j] by (simp add: bit_and_iff bit_mask_iff)
      then show False by (simp add: z)
    qed
  next
    assume "\<forall>j<m. \<not> bit x j"
    then show "x AND mask m = 0"
      by (intro bit_word_eqI) (auto simp: bit_and_iff bit_mask_iff)
  qed
  also have "\<dots> \<longleftrightarrow> m \<le> k"
    using l by (auto simp: lowest_set_def) (meson not_le_imp_less)
  finally show ?thesis by (simp add: k_def)
qed

lemma count_trailing_zeros_drop:
  assumes "x \<noteq> 0" "m \<le> count_trailing_zeros x"
  shows "count_trailing_zeros (drop_bit m x) = count_trailing_zeros x - m"
    and "drop_bit m x \<noteq> 0"
proof -
  have l: "lowest_set (drop_bit m x) (count_trailing_zeros x - m)"
    using lowest_set_drop[OF lowest_set_count[OF assms(1)] assms(2)] .
  show "count_trailing_zeros (drop_bit m x) = count_trailing_zeros x - m"
    using l by (rule count_trailing_zeros_lowest)
  show "drop_bit m x \<noteq> 0" using l by (rule lowest_set_nonzero)
qed

lemma count_trailing_zeros_less: "x \<noteq> 0 \<Longrightarrow> count_trailing_zeros x < 32"
  using lowest_set_less[OF lowest_set_count] .

lemma bsearch_masks:
  "(0xFFFF :: uint32) = mask 16" "(0xFF :: uint32) = mask 8" "(0xF :: uint32) = mask 4" 
  "(3 :: uint32) = mask 2" "(1 :: uint32) = mask 1"
  by (simp_all add: mask_eq_exp_minus_1)

lemma bsearch_step:
  fixes x :: uint32 and n :: int
  assumes "x \<noteq> 0" "count_trailing_zeros x < 2 * m"
    and "s = (if x AND mask m = 0 then (n + int m, drop_bit m x) else (n, x))"
  shows "snd s \<noteq> 0 \<and> count_trailing_zeros (snd s) < m
           \<and> fst s + int (count_trailing_zeros (snd s)) = n + int (count_trailing_zeros x)"
proof (cases "m \<le> count_trailing_zeros x")
  case True
  then have "s = (n + int m, drop_bit m x)"
    using assms by (simp add: and_mask_0_iff)
  then show ?thesis
    using True assms(1,2) by (simp add: count_trailing_zeros_drop)
next
  case False
  then have "s = (n, x)"
    using assms by (simp add: and_mask_0_iff)
  then show ?thesis
    using False assms(1) by simp
qed

lemma ctz_bsearch_contract: "ctz_bsearch x = of_nat (count_trailing_zeros x)"
proof (cases "x = 0")
  case True
  then show ?thesis by (simp add: ctz_bsearch_def count_trailing_zeros_0)
next
  case False
  define c where "c = count_trailing_zeros x"
  define s1 where "s1 = (if x AND mask 16 = 0 then (0 + int 16, drop_bit 16 x) else (0, x))"
  define s2 where "s2 = (if snd s1 AND mask 8 = 0 then (fst s1 + int 8, drop_bit 8 (snd s1)) else (fst s1, snd s1))"
  define s3 where "s3 = (if snd s2 AND mask 4 = 0 then (fst s2 + int 4, drop_bit 4 (snd s2)) else (fst s2, snd s2))"
  define s4 where "s4 = (if snd s3 AND mask 2 = 0 then (fst s3 + int 2, drop_bit 2 (snd s3)) else (fst s3, snd s3))"
  have r: "ctz_bsearch x = word_of_int (if snd s4 AND mask 1 = 0 then fst s4 + 1 else fst s4)"
    using False unfolding ctz_bsearch_def bsearch_masks Let_def split_def s1_def s2_def s3_def s4_def
    by simp
  have i1: "snd s1 \<noteq> 0 \<and> count_trailing_zeros (snd s1) < 16 \<and> fst s1 + int (count_trailing_zeros (snd s1)) = int c"
    using bsearch_step[OF False _ s1_def] count_trailing_zeros_less[OF False] by (simp add: c_def)
  have i2: "snd s2 \<noteq> 0 \<and> count_trailing_zeros (snd s2) < 8 \<and> fst s2 + int (count_trailing_zeros (snd s2)) = int c"
    using bsearch_step[OF _ _ s2_def] i1 by simp
  have i3: "snd s3 \<noteq> 0 \<and> count_trailing_zeros (snd s3) < 4 \<and> fst s3 + int (count_trailing_zeros (snd s3)) = int c"
    using bsearch_step[OF _ _ s3_def] i2 by simp
  have i4: "snd s4 \<noteq> 0 \<and> count_trailing_zeros (snd s4) < 2 \<and> fst s4 + int (count_trailing_zeros (snd s4)) = int c"
    using bsearch_step[OF _ _ s4_def] i3 by simp
  have "(snd s4 AND mask 1 = 0) \<longleftrightarrow> 1 \<le> count_trailing_zeros (snd s4)"
    using i4 by (intro and_mask_0_iff) simp
  then have "(if snd s4 AND mask 1 = 0 then fst s4 + 1 else fst s4) = int c"
    using i4 by (simp only: split: if_splits) auto
  then show ?thesis by (simp add: r c_def)
qed

section \<open>The statement pair that strips a run of zeros and a run of ones\<close>

lemma ctz_nonzero: "x \<noteq> 0 \<Longrightarrow> ctz tc x = Some (int (count_trailing_zeros x))"
  by (cases tc) (simp_all add: ctz_def builtin_ctz_def ffs_def ctz_debruijn_contract)

lemma ctz_zero: "ctz tc 0 = (if tc = GNUC then None else Some 32)"
  by (cases tc) (simp_all add: ctz_def builtin_ctz_def ctz_debruijn_def)

lemma shift_right_nat: "k < 32 \<Longrightarrow> shift_right n (int k) = Some (drop_bit k n)"
  by (simp add: shift_right_def)

lemma shift_right_32: "shift_right n 32 = None"
  by (simp add: shift_right_def)

lemma cto_all_ones: "NOT x = 0 \<Longrightarrow> cto tc x = None \<or> cto tc x = Some 32"
  by (simp add: cto_def ctz_zero)

lemma zeros_below:
  assumes "n \<noteq> 0" shows "\<forall>j<count_trailing_zeros n. \<not> bit n j"
    and "bit n (count_trailing_zeros n)" and "count_trailing_zeros n < 32"
  using lowest_set_count[OF assms] count_trailing_zeros_less[OF assms]
  by (simp_all add: lowest_set_def)

lemma ones_above_facts:
  assumes "n \<noteq> 0" "NOT (drop_bit (count_trailing_zeros n) n) \<noteq> 0"
  shows "0 < ones_above n"
    and "count_trailing_zeros n + ones_above n \<le> 32"
    and "\<forall>j. count_trailing_zeros n \<le> j \<and> j < count_trailing_zeros n + ones_above n \<longrightarrow> bit n j"
    and "\<not> bit n (count_trailing_zeros n + ones_above n)"
proof -
  define t where "t = count_trailing_zeros n"
  define m where "m = drop_bit t n"
  define k where "k = ones_above n"
  have k: "k = count_trailing_zeros (NOT m)" by (simp add: k_def ones_above_def m_def t_def)
  have m0: "NOT m \<noteq> 0" using assms(2) by (simp add: m_def t_def)
  have l: "lowest_set (NOT m) k" unfolding k using m0 by (rule lowest_set_count)
  have k32: "k < 32" using l by (rule lowest_set_less)
  have b0: "bit m 0" using zeros_below(2)[OF assms(1)] by (simp add: m_def t_def bit_drop_bit_eq)
  have notk: "\<not> bit m k" using l k32 by (simp add: lowest_set_def bit_not_iff)
  have below: "\<forall>j<k. bit m j" using l k32 by (auto simp: lowest_set_def bit_not_iff)
  show "0 < ones_above n" using b0 notk by (cases "k = 0") (auto simp: k_def)
  have "k - 1 < k" using \<open>0 < ones_above n\<close> by (simp add: k_def)
  then have "bit m (k - 1)" using below by blast
  then have "bit n (t + (k - 1))" by (simp add: m_def bit_drop_bit_eq)
  then have "t + (k - 1) < 32" using bit_imp_le_length[of n "t + (k - 1)"] by simp
  then show "count_trailing_zeros n + ones_above n \<le> 32"
    using \<open>0 < ones_above n\<close> by (simp add: t_def k_def)
  show "\<forall>j. count_trailing_zeros n \<le> j \<and> j < count_trailing_zeros n + ones_above n \<longrightarrow> bit n j"
  proof (intro allI impI)
    fix j assume j: "count_trailing_zeros n \<le> j \<and> j < count_trailing_zeros n + ones_above n"
    then have "j - t < k" unfolding t_def k_def by arith
    then have "bit m (j - t)" using below by simp
    then show "bit n j" using j by (simp add: m_def bit_drop_bit_eq t_def)
  qed
  show "\<not> bit n (count_trailing_zeros n + ones_above n)"
    using notk by (simp add: m_def bit_drop_bit_eq t_def k_def)
qed

lemma pair_defined:
  assumes "n \<noteq> 0" "NOT (drop_bit (count_trailing_zeros n) n) \<noteq> 0"
  shows "ctz tc n = Some (int (count_trailing_zeros n))"
    and "shift_right n (int (count_trailing_zeros n)) = Some (drop_bit (count_trailing_zeros n) n)"
    and "cto tc (drop_bit (count_trailing_zeros n) n) = Some (int (ones_above n))"
    and "shift_right (drop_bit (count_trailing_zeros n) n) (int (ones_above n))
           = Some (drop_bit (count_trailing_zeros n + ones_above n) n)"
proof -
  show "ctz tc n = Some (int (count_trailing_zeros n))" using assms(1) by (rule ctz_nonzero)
  show "shift_right n (int (count_trailing_zeros n)) = Some (drop_bit (count_trailing_zeros n) n)"
    using zeros_below(3)[OF assms(1)] by (rule shift_right_nat)
  show "cto tc (drop_bit (count_trailing_zeros n) n) = Some (int (ones_above n))"
    using assms(2) by (simp add: cto_def ctz_nonzero ones_above_def)
  have "ones_above n < 32"
    unfolding ones_above_def using assms(2) by (rule count_trailing_zeros_less)
  then show "shift_right (drop_bit (count_trailing_zeros n) n) (int (ones_above n))
           = Some (drop_bit (count_trailing_zeros n + ones_above n) n)"
    by (simp add: shift_right_nat drop_bit_drop_bit add.commute)
qed

lemma strip_trailing_eq:
  assumes "n \<noteq> 0"
  shows "strip_trailing tc n =
           (if NOT (drop_bit (count_trailing_zeros n) n) = 0 then None
            else Some (drop_bit (count_trailing_zeros n + ones_above n) n))"
proof (cases "NOT (drop_bit (count_trailing_zeros n) n) = 0")
  case True
  then show ?thesis
    using cto_all_ones[OF True, of tc] assms zeros_below(3)[OF assms]
    by (auto simp: strip_trailing_def ctz_nonzero shift_right_nat shift_right_32)
next
  case False
  then show ?thesis
    using pair_defined(1,3)[OF assms False, of tc] pair_defined(2,4)[OF assms False]
    by (simp add: strip_trailing_def)
qed

lemma loop_body_eq:
  assumes "n \<noteq> 0"
  shows "loop_body tc (n, mx) =
           (if NOT (drop_bit (count_trailing_zeros n) n) = 0 then None
            else Some (drop_bit (count_trailing_zeros n + ones_above n) n,
                       max (int (count_trailing_zeros n)) mx))"
proof (cases "NOT (drop_bit (count_trailing_zeros n) n) = 0")
  case True
  then show ?thesis
    using cto_all_ones[OF True, of tc] assms zeros_below(3)[OF assms]
    by (auto simp: loop_body_def ctz_nonzero shift_right_nat shift_right_32 Let_def)
next
  case False
  then show ?thesis
    using pair_defined(1,3)[OF assms False, of tc] pair_defined(2,4)[OF assms False]
    by (simp add: loop_body_def Let_def)
qed

lemma unat_drop_bit_less:
  fixes n :: uint32
  assumes "n \<noteq> 0" "0 < m" shows "unat (drop_bit m n) < unat n"
proof -
  have "0 < unat n" using assms(1) by (simp add: unat_gt_0)
  moreover have "(2::nat) ^ m > 1" using assms(2) by (intro one_less_power) simp_all
  moreover have "unat (drop_bit m n) = unat n div 2 ^ m"
    unfolding unat_drop_bit_eq by (rule drop_bit_eq_div)
  ultimately show ?thesis by (simp add: div_less_dividend)
qed

lemma loop_body_decreases:
  assumes "fst s \<noteq> 0" "loop_body tc s = Some s'"
  shows "unat (fst s') < unat (fst s)"
proof -
  obtain n mx where s: "s = (n, mx)" by (cases s)
  have n: "n \<noteq> 0" using assms(1) s by simp
  have nz: "NOT (drop_bit (count_trailing_zeros n) n) \<noteq> 0"
    using assms(2) unfolding s loop_body_eq[OF n] by (auto split: if_splits)
  have "fst s' = drop_bit (count_trailing_zeros n + ones_above n) n"
    using assms(2) nz unfolding s loop_body_eq[OF n] by auto
  then show ?thesis
    using unat_drop_bit_less[OF n, of "count_trailing_zeros n + ones_above n"]
      ones_above_facts(1)[OF n nz] by (simp add: s)
qed


section \<open>The loop terminates\<close>

termination while_loop
  by (relation "measure (\<lambda>(tc, s). unat (fst s))") (auto dest: loop_body_decreases)

declare while_loop.simps [simp del]

section \<open>Gaps and the position of the loop\<close>

lemma gap_lengths_set: "set (gap_lengths x) = {k. \<exists>i. binary_gap x i k}"
proof -
  have "\<exists>i\<in>{Suc 0..<32}. k \<in> {Suc 0..<32 - i} \<and> binary_gap x i k" if "binary_gap x i k" for i k
  proof -
    have "bit x (i + k)" using that by (simp add: binary_gap_def)
    then have "i + k < 32" using bit_imp_le_length[of x "i + k"] by simp
    moreover have "0 < i" "0 < k" using that by (simp_all add: binary_gap_def)
    ultimately show ?thesis using that by (intro bexI[of _ i]) auto
  qed
  then show ?thesis by (auto simp: gap_lengths_def)
qed

lemma longest_binary_gap_eqI:
  assumes "r = 0 \<or> (\<exists>i. binary_gap x i r)" "\<And>i k. binary_gap x i k \<Longrightarrow> k \<le> r"
  shows "longest_binary_gap x = r"
  unfolding longest_binary_gap_def
proof (rule Max_eqI)
  show "finite (set (0 # gap_lengths x))" by simp
  show "y \<le> r" if "y \<in> set (0 # gap_lengths x)" for y
    using that assms(2) by (auto simp: gap_lengths_set)
  show "r \<in> set (0 # gap_lengths x)"
    using assms(1) by (auto simp: gap_lengths_set)
qed

lemma new_gaps:
  assumes zeros: "\<forall>j. p \<le> j \<and> j < p + t \<longrightarrow> \<not> bit N j"
    and ones: "\<forall>j. p + t \<le> j \<and> j < p + t + k \<longrightarrow> bit N j"
    and below: "p = 0 \<or> bit N (p - 1)"
    and g: "binary_gap N i l" and less: "i + l < p + t + k"
  shows "i + l < p \<or> (i = p \<and> l = t)"
proof (cases "i + l < p")
  case True
  then show ?thesis by simp
next
  case False
  have i: "0 < i" and l: "0 < l" and lo: "bit N (i - 1)" and hi: "bit N (i + l)"
    and run: "\<And>j. i \<le> j \<Longrightarrow> j < i + l \<Longrightarrow> \<not> bit N j"
    using g by (auto simp: binary_gap_def)
  have a: "p + t \<le> i + l" using zeros hi False by (meson not_le_imp_less linorder_not_less)
  have "\<not> bit N (i + l - 1)" using run[of "i + l - 1"] l by simp
  then have "\<not> (p + t \<le> i + l - 1 \<and> i + l - 1 < p + t + k)" using ones by blast
  then have b: "i + l = p + t" using a less by arith
  have c: "\<not> p < i"
  proof
    assume "p < i"
    then have "p \<le> i - 1 \<and> i - 1 < p + t" using b l by arith
    then show False using zeros lo by blast
  qed
  have d: "\<not> i < p"
  proof
    assume "i < p"
    then have "bit N (p - 1)" using below by auto
    moreover have "i \<le> p - 1" "p - 1 < i + l" using \<open>i < p\<close> b by arith+
    ultimately show False using run by blast
  qed
  show ?thesis using b c d by arith
qed

lemma gap_here:
  assumes "0 < p" "bit N (p - 1)" "\<forall>j. p \<le> j \<and> j < p + t \<longrightarrow> \<not> bit N j" "bit N (p + t)" "0 < t"
  shows "binary_gap N p t"
  using assms by (simp add: binary_gap_def)

lemma window:
  fixes N :: uint32 and p :: nat
  defines "n \<equiv> drop_bit p N"
  assumes n0: "n \<noteq> 0" and n1: "NOT (drop_bit (count_trailing_zeros n) n) \<noteq> 0"
  shows "\<forall>j. p \<le> j \<and> j < p + count_trailing_zeros n \<longrightarrow> \<not> bit N j"
    and "\<forall>j. p + count_trailing_zeros n \<le> j \<and> j < p + count_trailing_zeros n + ones_above n \<longrightarrow> bit N j"
    and "bit N (p + count_trailing_zeros n)"
    and "bit N (p + count_trailing_zeros n + ones_above n - 1)"
    and "0 < ones_above n"
    and "drop_bit (count_trailing_zeros n + ones_above n) n = drop_bit (p + count_trailing_zeros n + ones_above n) N"
    and "\<not> bit N (p + count_trailing_zeros n + ones_above n)"
proof -
  note z = zeros_below[OF n0]
  note o = ones_above_facts[OF n0 n1]
  have b: "bit n j = bit N (p + j)" for j by (simp add: n_def bit_drop_bit_eq)
  show "\<forall>j. p \<le> j \<and> j < p + count_trailing_zeros n \<longrightarrow> \<not> bit N j"
  proof (intro allI impI)
    fix j assume j: "p \<le> j \<and> j < p + count_trailing_zeros n"
    then have "j - p < count_trailing_zeros n" by arith
    then have "\<not> bit n (j - p)" using z(1) by blast
    then show "\<not> bit N j" using j by (simp add: b)
  qed
  show "\<forall>j. p + count_trailing_zeros n \<le> j \<and> j < p + count_trailing_zeros n + ones_above n \<longrightarrow> bit N j"
  proof (intro allI impI)
    fix j assume j: "p + count_trailing_zeros n \<le> j \<and> j < p + count_trailing_zeros n + ones_above n"
    then have "count_trailing_zeros n \<le> j - p \<and> j - p < count_trailing_zeros n + ones_above n" by arith
    then have "bit n (j - p)" using o(3) by blast
    then show "bit N j" using j by (simp add: b)
  qed
  then show "bit N (p + count_trailing_zeros n + ones_above n - 1)" using o(1) by simp
  show "bit N (p + count_trailing_zeros n)" using z(2) by (simp add: b)
  show "0 < ones_above n" by (rule o(1))
  show "\<not> bit N (p + count_trailing_zeros n + ones_above n)"
    using o(4) by (simp add: b add.assoc)
  show "drop_bit (count_trailing_zeros n + ones_above n) n = drop_bit (p + count_trailing_zeros n + ones_above n) N"
    by (simp add: n_def drop_bit_drop_bit add.commute add.left_commute)
qed

lemma not_bit_31_drop: "0 < p \<Longrightarrow> \<not> bit (drop_bit p N) 31" for N :: uint32
  using bit_imp_le_length[of N "p + 31"] by (auto simp: bit_drop_bit_eq)

lemma not_bit_31_drop': "\<not> bit N 31 \<Longrightarrow> \<not> bit (drop_bit p N) 31" for N :: uint32
  using not_bit_31_drop[of p N] by (cases "p = 0") simp_all

lemma not_all_ones: "\<not> bit x 31 \<Longrightarrow> NOT x \<noteq> 0" for x :: uint32
  by (auto simp: bit_eq_iff bit_not_iff intro!: exI[of _ 31])

lemma positive_int32: 
  fixes N :: int32
  assumes "1 \<le> sint N" shows "N \<noteq> 0" "\<not> bit N 31"
proof -
  show "N \<noteq> 0" using assms by auto
  show "\<not> bit N 31" using assms bit_last_iff[of N] by simp
qed

lemma at_position_le: "at_position N p n \<Longrightarrow> p \<le> 32"
  using bit_imp_le_length[of N "p - 1"] by (auto simp: at_position_def)

lemma at_position_defined:
  assumes "at_position N p n" shows "NOT (drop_bit m n) \<noteq> 0"
proof -
  have "\<not> bit n 31" using assms by (simp add: at_position_def not_bit_31_drop)
  then have "\<not> bit (drop_bit m n) 31" by (rule not_bit_31_drop')
  then show ?thesis by (rule not_all_ones)
qed

lemma loop_step:
  assumes pos: "at_position N p n" and n0: "n \<noteq> 0"
  shows "loop_body tc (n, mx) =
           Some (drop_bit (count_trailing_zeros n + ones_above n) n, max (int (count_trailing_zeros n)) mx)"
    and "at_position N (p + count_trailing_zeros n + ones_above n)
           (drop_bit (count_trailing_zeros n + ones_above n) n)"
proof -
  have nz: "NOT (drop_bit (count_trailing_zeros n) n) \<noteq> 0"
    using pos by (rule at_position_defined)
  show "loop_body tc (n, mx) =
           Some (drop_bit (count_trailing_zeros n + ones_above n) n, max (int (count_trailing_zeros n)) mx)"
    using nz by (simp add: loop_body_eq[OF n0])
  have n: "n = drop_bit p N" using pos by (simp add: at_position_def)
  note w = window[of p N, folded n, OF n0 nz]
  show "at_position N (p + count_trailing_zeros n + ones_above n)
           (drop_bit (count_trailing_zeros n + ones_above n) n)"
    unfolding at_position_def using w(4,5,6,7) by simp
qed

lemma while_loop_0: "while_loop tc (0, mx) = Some mx"
  by (simp add: while_loop.simps[of tc "(0, mx)"])

lemma while_loop_step:
  "n \<noteq> 0 \<Longrightarrow> while_loop tc (n, mx) = loop_body tc (n, mx) \<bind> while_loop tc"
  by (simp add: while_loop.simps[of tc "(n, mx)"])

lemma while_loop_result:
  assumes "at_position N p n" "0 \<le> mx"
  shows "\<exists>r. while_loop tc (n, mx) = Some r \<and> mx \<le> r
             \<and> (r = mx \<or> (\<exists>i k. binary_gap N i k \<and> r = int k))
             \<and> (\<forall>i k. binary_gap N i k \<and> p \<le> i + k \<longrightarrow> int k \<le> r)"
  using assms
proof (induction "unat n" arbitrary: n p mx rule: less_induct)
  case less
  show ?case
  proof (cases "n = 0")
    case True
    have "\<not> (binary_gap N i k \<and> p \<le> i + k)" for i k
    proof
      assume a: "binary_gap N i k \<and> p \<le> i + k"
      then have "bit N (p + (i + k - p))" by (simp add: binary_gap_def)
      then have "bit n (i + k - p)" using less.prems(1) by (simp add: at_position_def bit_drop_bit_eq)
      then show False using True by simp
    qed
    then show ?thesis using True by (auto simp: while_loop_0)
  next
    case False
    define t where "t = count_trailing_zeros n"
    define k where "k = ones_above n"
    define n' where "n' = drop_bit (t + k) n"
    define mx' where "mx' = max (int t) mx"
    note step = loop_step(1)[OF less.prems(1) False, of tc mx, folded t_def k_def, folded n'_def mx'_def]
      loop_step(2)[OF less.prems(1) False, folded t_def k_def, folded n'_def]
    have nz: "NOT (drop_bit (count_trailing_zeros n) n) \<noteq> 0"
      using less.prems(1) by (rule at_position_defined)
    have n: "n = drop_bit p N" using less.prems(1) by (simp add: at_position_def)
    note w = window[of p N, folded n, OF False nz, folded t_def k_def]
    have dec: "unat n' < unat n"
      using loop_body_decreases[of "(n, mx)" tc "(n', mx')"] False step(1) by simp
    have "0 \<le> mx'" using less.prems(2) by (simp add: mx'_def)
    from less.hyps[OF dec step(2) this]
    obtain r where r: "while_loop tc (n', mx') = Some r" "mx' \<le> r"
      "r = mx' \<or> (\<exists>i k. binary_gap N i k \<and> r = int k)"
      "\<forall>i l. binary_gap N i l \<and> p + t + k \<le> i + l \<longrightarrow> int l \<le> r"
      by blast
    have 1: "while_loop tc (n, mx) = Some r"
      using step(1) r(1) by (simp add: while_loop_step[OF False])
    have 2: "mx \<le> r" using r(2) by (simp add: mx'_def)
    have pos: "0 < p" "bit N (p - 1)" using less.prems(1) by (simp_all add: at_position_def)
    have 3: "r = mx \<or> (\<exists>i k. binary_gap N i k \<and> r = int k)"
    proof (cases "r = mx' \<and> mx < int t")
      case True
      then have "0 < t" using less.prems(2) by simp
      then have "binary_gap N p t" using gap_here[OF pos w(1,3)] by simp
      moreover have "r = int t" using True by (simp add: mx'_def)
      ultimately show ?thesis by blast
    next
      case False
      then show ?thesis using r(3) by (auto simp: mx'_def max_def split: if_splits)
    qed
    have 4: "\<forall>i l. binary_gap N i l \<and> p \<le> i + l \<longrightarrow> int l \<le> r"
    proof (intro allI impI)
      fix i l assume g: "binary_gap N i l \<and> p \<le> i + l"
      show "int l \<le> r"
      proof (cases "p + t + k \<le> i + l")
        case True
        then show ?thesis using r(4) g by blast
      next
        case False
        then have "i + l < p + t + k" by simp
        have "i + l < p \<or> (i = p \<and> l = t)"
          by (rule new_gaps[OF w(1) w(2)]) (use pos g \<open>i + l < p + t + k\<close> in auto)
        then have "l = t" using g by auto
        then show ?thesis using r(2) by (simp add: mx'_def)
      qed
    qed
    show ?thesis using 1 2 3 4 by blast
  qed
qed

lemma loop_exits:
  assumes "at_position N p n"
  shows "\<exists>k mx'. p + k \<le> 32 \<and> iterations k tc (n, mx) = Some (0, mx')
                \<and> while_loop tc (n, mx) = Some mx'"
  using assms
proof (induction "unat n" arbitrary: n p mx rule: less_induct)
  case less
  show ?case
  proof (cases "n = 0")
    case True
    have "iterations 0 tc (n, mx) = Some (0, mx)" using True by simp
    moreover have "while_loop tc (n, mx) = Some mx"
      using True by (simp add: while_loop_0)
    ultimately show ?thesis using at_position_le[OF less.prems] 
      by (intro exI[of _ 0] exI[of _ mx]) simp
  next
    case False
    define n' where "n' = drop_bit (count_trailing_zeros n + ones_above n) n"
    define mx' where "mx' = max (int (count_trailing_zeros n)) mx"
    note step = loop_step(1)[OF less.prems(1) False, of tc mx, folded n'_def mx'_def]
      loop_step(2)[OF less.prems(1) False, folded n'_def]
    have nz: "NOT (drop_bit (count_trailing_zeros n) n) \<noteq> 0"
      using less.prems(1) by (rule at_position_defined)
    have o: "0 < ones_above n" using ones_above_facts(1)[OF False nz] .
    have dec: "unat n' < unat n"
      using loop_body_decreases[of "(n, mx)" tc "(n', mx')"] False step(1) by simp
    from less.hyps[OF dec step(2), of mx']
    obtain k r where k: "p + count_trailing_zeros n + ones_above n + k \<le> 32"
      "iterations k tc (n', mx') = Some (0, r)" "while_loop tc (n', mx') = Some r"
      by blast
    have "iterations (Suc k) tc (n, mx) = Some (0, r)"
      using False step(1) k(2) by simp
    moreover have "while_loop tc (n, mx) = Some r"
      using step(1) k(3) by (simp add: while_loop_step[OF False])
    moreover have "p + Suc k \<le> 32" using k(1) o by arith
    ultimately show ?thesis by blast
  qed
qed

lemma iterations_position:
  assumes "at_position N p n" "iterations k tc (n, mx) = Some (n', mx')"
  shows "\<exists>p'. at_position N p' n'"
  using assms
proof (induction k arbitrary: n p mx)
  case 0
  then show ?case by auto
next
  case (Suc k)
  have n0: "n \<noteq> 0" using Suc.prems(2) by (auto split: if_splits)
  note step = loop_step(1)[OF Suc.prems(1) n0, of tc mx] loop_step(2)[OF Suc.prems(1) n0]
  have "iterations k tc (drop_bit (count_trailing_zeros n + ones_above n) n, 
           max (int (count_trailing_zeros n)) mx) = Some (n', mx')"
    using Suc.prems(2) n0 step(1) by simp
  from Suc.IH[OF step(2) this] show ?case .
qed

lemma strip_position:
  assumes "1 \<le> sint N"
  shows "\<exists>n0 p0. strip_trailing tc N = Some n0 \<and> at_position N p0 n0
           \<and> n0 = drop_bit (count_trailing_zeros N + ones_above N) N
           \<and> (\<forall>i k. binary_gap N i k \<longrightarrow> p0 \<le> i + k)"
proof -
  note N = positive_int32[OF assms]
  have nz: "NOT (drop_bit (count_trailing_zeros N) N) \<noteq> 0"
    using N(2) by (intro not_all_ones not_bit_31_drop')
  define p0 where "p0 = count_trailing_zeros N + ones_above N"
  have s: "strip_trailing tc N = Some (drop_bit p0 N)"
    using nz by (simp add: strip_trailing_eq[OF N(1)] p0_def)
  have "drop_bit 0 N \<noteq> 0" "NOT (drop_bit (count_trailing_zeros (drop_bit 0 N)) (drop_bit 0 N)) \<noteq> 0"
    using N(1) nz by simp_all
  note w = window[of 0 N, OF this, simplified, folded p0_def]
  have pos: "at_position N p0 (drop_bit p0 N)"
    using w(4,5,7) by (simp add: at_position_def p0_def)
  have "p0 \<le> i + k" if "binary_gap N i k" for i k
  proof (rule ccontr)
    assume "\<not> p0 \<le> i + k"
    then have "i + k < 0 + count_trailing_zeros N + ones_above N" by (simp add: p0_def)
    moreover have "\<forall>j. 0 \<le> j \<and> j < 0 + count_trailing_zeros N \<longrightarrow> \<not> bit N j"
      using w(1) by simp
    moreover have "\<forall>j. 0 + count_trailing_zeros N \<le> j \<and> j < 0 + count_trailing_zeros N + ones_above N
                       \<longrightarrow> bit N j"
      using w(2) by (simp add: p0_def)
    ultimately have "i + k < 0 \<or> i = 0 \<and> k = count_trailing_zeros N"
      using that by (intro new_gaps) simp_all
    then have "i = 0" by simp
    then show False using that by (simp add: binary_gap_def)
  qed
  then show ?thesis using s pos by (auto simp: p0_def)
qed

lemma solution_result:
  assumes "1 \<le> sint N"
  shows "solution tc N = Inr (int (longest_binary_gap N))"
proof -
  obtain n0 p0 where s: "strip_trailing tc N = Some n0" "at_position N p0 n0"
    "\<forall>i k. binary_gap N i k \<longrightarrow> p0 \<le> i + k"
    using strip_position[OF assms, of tc] by blast
  obtain r where r: "while_loop tc (n0, 0) = Some r" "0 \<le> r"
    "r = 0 \<or> (\<exists>i k. binary_gap N i k \<and> r = int k)"
    "\<forall>i k. binary_gap N i k \<and> p0 \<le> i + k \<longrightarrow> int k \<le> r"
    using while_loop_result[OF s(2), of 0 tc] by auto
  have "longest_binary_gap N = nat r"
  proof (rule longest_binary_gap_eqI)
    show "nat r = 0 \<or> (\<exists>i. binary_gap N i (nat r))" using r(3) by auto
    show "k \<le> nat r" if "binary_gap N i k" for i k
    proof -
      have "int k \<le> r" using r(4) s(3) that by blast
      then show ?thesis by arith
    qed
  qed
  then show ?thesis using assms s(1) r(1,2) by (simp add: solution_def)
qed

lemma measured_run:
  assumes pos: "at_position N p n" and n0: "n \<noteq> 0"
  shows "ctz tc n = Some (int (count_trailing_zeros n))"
    and "shift_right n (int (count_trailing_zeros n)) = Some (drop_bit (count_trailing_zeros n) n)"
    and "drop_bit (count_trailing_zeros n) n \<noteq> 0"
    and "bit (drop_bit (count_trailing_zeros n) n) 0"
    and "binary_gap N p (count_trailing_zeros n)"
proof -
  have nz: "NOT (drop_bit (count_trailing_zeros n) n) \<noteq> 0"
    using pos by (rule at_position_defined)
  show "ctz tc n = Some (int (count_trailing_zeros n))"
    using n0 nz by (rule pair_defined(1))
  show "shift_right n (int (count_trailing_zeros n)) = Some (drop_bit (count_trailing_zeros n) n)"
    using n0 nz by (rule pair_defined(2))
  show "drop_bit (count_trailing_zeros n) n \<noteq> 0"
    using n0 by (intro count_trailing_zeros_drop(2)) simp_all
  show "bit (drop_bit (count_trailing_zeros n) n) 0"
    using zeros_below(2)[OF n0] by (simp add: bit_drop_bit_eq)
  have n: "n = drop_bit p N" and p: "0 < p" "bit N (p - 1)" "\<not> bit N p"
    using pos by (simp_all add: at_position_def)
  note w = window[of p N, folded n, OF n0 nz]
  have "count_trailing_zeros n \<noteq> 0" using w(3) p(3) by (intro notI) simp
  then show "binary_gap N p (count_trailing_zeros n)"
    using gap_here[OF p(1,2) w(1,3)] by simp
qed

lemma operands_defined:
  assumes n0: "n \<noteq> 0" and nz: "NOT (drop_bit (count_trailing_zeros n) n) \<noteq> 0"
  shows "ctz_operands tc n = [n, NOT (drop_bit (count_trailing_zeros n) n)]"
  using pair_defined(1)[OF n0 nz, of tc] pair_defined(2)[OF n0 nz]
  by (simp add: ctz_operands_def)

lemma single_run_convex:
  assumes "single_run x" "bit x i" "bit x l" "i \<le> j" "j \<le> l"
  shows "bit x j"
proof -
  obtain b a where x: "x = push_bit b (mask a)" using assms(1) by (auto simp: single_run_def)
  have "l < 32" using bit_imp_le_length[OF assms(3)] by simp
  then show ?thesis
    using assms(2-5) unfolding x by (auto simp: bit_push_bit_iff bit_mask_iff)
qed

lemma strip_trailing_0_iff:
  assumes "1 \<le> sint N"
  shows "strip_trailing tc N = Some 0 \<longleftrightarrow> single_run N"
proof -
  note N = positive_int32[OF assms]
  have nz: "NOT (drop_bit (count_trailing_zeros N) N) \<noteq> 0"
    using N(2) by (intro not_all_ones not_bit_31_drop')
  define t where "t = count_trailing_zeros N"
  define k where "k = ones_above N"
  have s: "strip_trailing tc N = Some (drop_bit (t + k) N)"
    using nz by (simp add: strip_trailing_eq[OF N(1)] t_def k_def)
  have "drop_bit 0 N \<noteq> 0" "NOT (drop_bit (count_trailing_zeros (drop_bit 0 N)) (drop_bit 0 N)) \<noteq> 0"
    using N(1) nz by simp_all
  note w = window[of 0 N, OF this, simplified, folded t_def k_def]
  note z = zeros_below[OF N(1), folded t_def]
  show ?thesis
  proof
    assume "strip_trailing tc N = Some 0"
    then have d: "drop_bit (t + k) N = 0" using s by simp
    have above: "\<not> bit N j" if "t + k \<le> j" for j
    proof -
      have "bit N j = bit (drop_bit (t + k) N) (j - (t + k))"
        using that by (simp add: bit_drop_bit_eq)
      then show ?thesis by (simp add: d)
    qed
    have "N = push_bit t (mask k)"
    proof (rule bit_word_eqI)
      fix j assume "j < LENGTH(32)"
      consider "j < t" | "t \<le> j \<and> j < t + k" | "t + k \<le> j" by arith
      then show "bit N j \<longleftrightarrow> bit (push_bit t (mask k :: uint32)) j"
      proof cases
        case 1
        then show ?thesis using z(1) by (simp add: bit_push_bit_iff)
      next
        case 2
        then have "bit N j" using w(2) by blast
        moreover have "j - t < k" using 2 by arith
        ultimately show ?thesis using 2 \<open>j < LENGTH(32)\<close> by (simp add: bit_push_bit_iff bit_mask_iff)
      next
        case 3
        then have "\<not> j - t < k" by arith
        then show ?thesis using above[OF 3] by (simp add: bit_push_bit_iff bit_mask_iff)
      qed
    qed
    moreover have "t < 32" by (rule z(3))
    moreover have "k \<le> 32" using ones_above_facts(2)[OF N(1) nz] by (simp add: k_def)
    ultimately show "single_run N"
      unfolding single_run_def by (intro bexI[of _ t] bexI[of _ k]) simp_all
  next
    assume sr: "single_run N"
    have "drop_bit (t + k) N = 0"
    proof (rule bit_word_eqI)
      fix j assume "j < LENGTH(32)"
      have "\<not> bit N (t + k + j)"
      proof
        assume "bit N (t + k + j)"
        from single_run_convex[OF sr w(4) this, of "t + k"] w(5) w(7)
        show False by simp
      qed
      then show "bit (drop_bit (t + k) N) j \<longleftrightarrow> bit (0 :: uint32) j"
        by (simp add: bit_drop_bit_eq)
    qed
    then show "strip_trailing tc N = Some 0" using s by simp
  qed
qed

lemma strip_trailing_even:
  assumes "1 \<le> sint N" "strip_trailing tc N = Some v"
  shows "\<not> bit v 0" "\<exists>p. 0 < p \<and> v = drop_bit p N \<and> bit N (p - 1)"
proof -
  obtain n0 p0 where s: "strip_trailing tc N = Some n0" "at_position N p0 n0"
    using strip_position[OF assms(1), of tc] by blast
  then have v: "v = n0" using assms(2) by simp
  show "\<not> bit v 0" using s(2) by (simp add: v at_position_def bit_drop_bit_eq)
  show "\<exists>p. 0 < p \<and> v = drop_bit p N \<and> bit N (p - 1)"
    using s(2) by (auto simp: v at_position_def)
qed

section \<open>The claims\<close>

text \<open>
  C1. For every \<open>N\<close> in \<open>[1, 2147483647]\<close>, on each build, \<open>solution(N)\<close> returns
  the length of the longest run of zero bits of \<open>N\<close> that has a one bit immediately
  below it and a one bit immediately above it, and 0 when there is no such run.
\<close>

theorem solution_longest_binary_gap:
  "1 \<le> sint N \<Longrightarrow> solution tc N = Inr (int (longest_binary_gap N))"
  by (rule solution_result)

theorem solution_longest_binary_gap_witness:
  "1 \<le> sint (529 :: int32) \<and> solution GNUC 529 = Inr (int (longest_binary_gap 529))
     \<and> solution GNUC 529 = Inr 4 \<and> longest_binary_gap 529 = 4"
proof -
  have h: "1 \<le> sint (529 :: int32)" by simp
  have e: "solution GNUC 529 = Inr 4" by code_simp
  show ?thesis
    using h e solution_longest_binary_gap [OF h, of GNUC] by simp
qed

text \<open>
  On every build \<open>ctz\<close> meets the contract at a nonzero operand, and \<open>cto\<close> counts the
  trailing ones of a value that is not all ones.
\<close>

lemma ctz_nonzero_contract:
  "x \<noteq> 0 \<Longrightarrow> ctz tc x = Some (int (count_trailing_zeros x))"
  by (rule ctz_nonzero)

lemma cto_contract:
  "NOT x \<noteq> 0 \<Longrightarrow> cto tc x = Some (int (count_trailing_zeros (NOT x)))"
  by (simp add: cto_def ctz_nonzero)

text \<open>
  The \<open>_MSC_VER\<close> variant answers with the index of the highest set bit where the
  contract (and \<open>assert(ctz(0x00000F00) == 8)\<close> in \<open>main\<close>) asks for the lowest.
\<close>

lemma ctz_msc_highest_bit: "ctz_msc 0xF00 = 11 \<and> count_trailing_zeros 0xF00 = 8"
  by code_simp

text \<open>
  C2. The contract asks for \<open>ctz(0) = 32\<close> and \<open>cto(all-ones) = 32\<close>, and \<open>main\<close>
  asserts \<open>ctz(0) == 32\<close>. The \<open>strings.h\<close> and the portable build answer 32; the
  \<open>__GNUC__\<close> build hands zero to \<open>__builtin_ctz\<close>, whose result is undefined.
\<close>

theorem ctz_of_zero_by_build:
  "ctz GNUC 0 = None \<and> ctz STRINGS_H 0 = Some 32 \<and> ctz PORTABLE 0 = Some 32
     \<and> cto GNUC (- 1) = None \<and> cto STRINGS_H (- 1) = Some 32 \<and> cto PORTABLE (- 1) = Some 32"
  by (simp add: cto_def ctz_zero)

text \<open>
  The contract function is what its name says: 32 at zero, and otherwise the index
  of a set bit with no set bit below it.
\<close>

lemma count_trailing_zeros_contract:
  "(x = 0 \<longrightarrow> count_trailing_zeros x = 32)
     \<and> (x \<noteq> 0 \<longrightarrow> bit x (count_trailing_zeros x) \<and> (\<forall>j<count_trailing_zeros x. \<not> bit x j))"
  using zeros_below(1,2)[of x] by (auto simp: count_trailing_zeros_0)

text \<open>
  C3. For every 32-bit \<open>x\<close>, zero included, the four software variants return the
  same value (the \<open>int\<close> of \<open>ctz_debruijn\<close> compared as C++ compares it with an
  \<open>unsigned\<close>), and that value is the one the CTZ contract asks for: the index of the
  lowest set bit, and 32 for zero.
\<close>

theorem ctz_variants_agree:
  "ctz_simple x = ctz_bits x \<and> ctz_bits x = ctz_bsearch x
     \<and> ctz_bsearch x = word_of_int (ctz_debruijn x)
     \<and> unat (ctz_simple x) = count_trailing_zeros x
     \<and> unat (ctz_bits x) = count_trailing_zeros x
     \<and> unat (ctz_bsearch x) = count_trailing_zeros x
     \<and> ctz_debruijn x = int (count_trailing_zeros x)
     \<and> (x = 0 \<longrightarrow> count_trailing_zeros x = 32)
     \<and> (x \<noteq> 0 \<longrightarrow> bit x (count_trailing_zeros x) \<and> (\<forall>j<count_trailing_zeros x. \<not> bit x j))"
proof -
  have "count_trailing_zeros x \<le> 32"
    using count_trailing_zeros_less[of x] by (cases "x = 0") (simp_all add: count_trailing_zeros_0)
  then have "unat (word_of_nat (count_trailing_zeros x) :: uint32) = count_trailing_zeros x"
    by (simp add: unsigned_of_nat take_bit_nat_eq_self)
  then show ?thesis
    using count_trailing_zeros_contract[of x]
    by (simp add: ctz_simple_contract ctz_bits_contract ctz_bsearch_contract ctz_debruijn_contract)
qed

theorem ctz_variants_agree_witness:
  "ctz_simple 0xF00 = 8 \<and> ctz_bits 0xF00 = 8 \<and> ctz_bsearch 0xF00 = 8 \<and> ctz_debruijn 0xF00 = 8
     \<and> count_trailing_zeros 0xF00 = 8 \<and> bit (0xF00 :: uint32) 8
     \<and> ctz_simple 0 = 32 \<and> ctz_bits 0 = 32 \<and> ctz_bsearch 0 = 32 \<and> ctz_debruijn 0 = 32"
proof -
  have a: "ctz_debruijn 0xF00 = 8" by code_simp
  have b: "ctz_debruijn 0 = 32" by code_simp
  have c: "(0xF00 :: uint32) \<noteq> 0" by simp
  show ?thesis
    using a b c ctz_variants_agree [of "0xF00"] ctz_variants_agree [of 0]
    by (simp add: word_eq_iff_unsigned[where 'a=nat, of _ "8::uint32"] word_eq_iff_unsigned[where 'a=nat, of _ "32::uint32"])
qed

text \<open>
  C4. For every \<open>N < 1\<close>, \<open>solution(N)\<close> throws (\<open>std::out_of_range\<close>) and returns
  no value; for every \<open>N\<close> in \<open>[1, 2147483647]\<close> it returns a value.
\<close>

theorem solution_rejects_nonpositive:
  "(sint N < 1 \<longrightarrow> solution tc N = Inl Out_of_range)
     \<and> (1 \<le> sint N \<longrightarrow> (\<exists>r. solution tc N = Inr r))"
  using solution_result[of N tc] by (simp add: solution_def)

theorem solution_rejects_nonpositive_witness:
  "solution GNUC 0 = Inl Out_of_range \<and> solution GNUC (- 7) = Inl Out_of_range
     \<and> solution GNUC 0x80000000 = Inl Out_of_range \<and> (\<exists>r. solution GNUC 9 = Inr r)"
proof -
  have "sint (0 :: int32) < 1" "sint (- 7 :: int32) < 1" "sint (0x80000000 :: int32) < 1"
    "1 \<le> sint (9 :: int32)" by simp_all
  then show ?thesis
    using solution_rejects_nonpositive [of 0 GNUC] solution_rejects_nonpositive [of "- 7" GNUC]
      solution_rejects_nonpositive [of "0x80000000" GNUC] solution_rejects_nonpositive [of 9 GNUC]
    by simp
qed

text \<open>The literal scenarios, evaluated on each build.\<close>

lemma literal_9: "solution tc 9 = Inr 2"
  by (cases tc; hypsubst; code_simp)

lemma literal_529: "solution tc 529 = Inr 4"
  by (cases tc; hypsubst; code_simp)

lemma literal_20: "solution tc 20 = Inr 1"
  by (cases tc; hypsubst; code_simp)

lemma literal_15: "solution tc 15 = Inr 0"
  by (cases tc; hypsubst; code_simp)

lemma literal_32: "solution tc 32 = Inr 0"
  by (cases tc; hypsubst; code_simp)

lemma literal_1041: "solution tc 1041 = Inr 5"
  by (cases tc; hypsubst; code_simp)

lemma literal_max: "solution tc 2147483647 = Inr 0"
  by (cases tc; hypsubst; code_simp)

text \<open>
  C5. \<open>solution\<close> returns the literal values of the spec: 2 at 9, 4 at 529, 1 at 20,
  0 at 15, 0 at 32, 5 at 1041 and 0 at 2147483647.
\<close>

theorem solution_literal_values:
  "solution tc 9 = Inr 2 \<and> solution tc 529 = Inr 4 \<and> solution tc 20 = Inr 1
     \<and> solution tc 15 = Inr 0 \<and> solution tc 32 = Inr 0 \<and> solution tc 1041 = Inr 5
     \<and> solution tc 2147483647 = Inr 0"
  by (simp only: literal_9 literal_529 literal_20 literal_15 literal_32 literal_1041 literal_max)

text \<open>
  Every state the loop reaches from the stripped value sits at a position of \<open>N\<close>.
\<close>

lemma reachable_position:
  assumes "1 \<le> sint N" "strip_trailing tc N = Some n0" "iterations k tc (n0, 0) = Some (n, mx)"
  shows "\<exists>p. at_position N p n"
proof -
  obtain n0' p0 where "strip_trailing tc N = Some n0'" "at_position N p0 n0'"
    using strip_position[OF assms(1), of tc] by blast
  then have "at_position N p0 n0" using assms(2) by simp
  then show ?thesis using assms(3) by (rule iterations_position)
qed

text \<open>
  C6. For every \<open>N \<ge> 1\<close>, at every pass of the \<open>while\<close> loop (every state
  \<open>(n, mx)\<close> at the head of the loop with \<open>n \<noteq> 0\<close>): the value \<open>n\<close> is what is
  left of \<open>N\<close> above some bit \<open>p\<close>, and the bit of \<open>N\<close> just below \<open>p\<close> is a one;
  \<open>ctz\<close> counts \<open>tz\<close> zeros, and the value left after they are shifted out (\<open>N\<close>
  above bit \<open>p + tz\<close>) is nonzero with a one as its lowest bit. So the run whose
  length \<open>tz\<close> enters the maximum is the binary gap of \<open>N\<close> that starts at bit
  \<open>p\<close>: zero bits with a one bit directly below and directly above.
\<close>

theorem measured_runs_are_enclosed:
  assumes "1 \<le> sint N" and "strip_trailing tc N = Some n0"
    and "iterations k tc (n0, 0) = Some (n, mx)" and "n \<noteq> 0"
  shows "\<exists>p tz n' n''. 0 < p \<and> n = drop_bit p N \<and> bit N (p - 1)
           \<and> ctz tc n = Some (int tz) \<and> shift_right n (int tz) = Some n'
           \<and> n' = drop_bit (p + tz) N \<and> n' \<noteq> 0 \<and> bit n' 0
           \<and> binary_gap N p tz
           \<and> loop_body tc (n, mx) = Some (n'', max (int tz) mx)"
proof -
  obtain p where pos: "at_position N p n"
    using reachable_position[OF assms(1-3)] by blast
  define tz where "tz = count_trailing_zeros n"
  define n' where "n' = drop_bit tz n"
  have p: "0 < p" "n = drop_bit p N" "bit N (p - 1)"
    using pos by (simp_all add: at_position_def)
  have n': "n' = drop_bit (p + tz) N"
    unfolding n'_def by (subst p(2)) (simp add: drop_bit_drop_bit add.commute)
  note m = measured_run(2-5)[OF pos assms(4), folded tz_def, folded n'_def]
    measured_run(1)[OF pos assms(4), of tc, folded tz_def]
  note b = loop_step(1)[OF pos assms(4), of tc mx, folded tz_def]
  show ?thesis
    using p n' m b by blast
qed

theorem measured_runs_are_enclosed_witness:
  "strip_trailing GNUC 529 = Some 264 \<and> iterations 1 GNUC (264, 0) = Some (16, 3)
     \<and> (\<exists>p tz n' n''. 0 < p \<and> (16 :: uint32) = drop_bit p 529 \<and> bit (529 :: uint32) (p - 1)
           \<and> ctz GNUC 16 = Some (int tz) \<and> shift_right 16 (int tz) = Some n'
           \<and> n' = drop_bit (p + tz) 529 \<and> n' \<noteq> 0 \<and> bit n' 0
           \<and> binary_gap 529 p tz
           \<and> loop_body GNUC (16, 3) = Some (n'', max (int tz) 3))
     \<and> (16 :: uint32) = drop_bit 5 529 \<and> ctz GNUC 16 = Some 4 \<and> shift_right 16 4 = Some 1
     \<and> binary_gap 529 5 4 \<and> loop_body GNUC (16, 3) = Some (0, 4)"
proof -
  have h: "1 \<le> sint (529 :: int32)" by simp
  have s: "strip_trailing GNUC 529 = Some 264" by code_simp
  have i: "iterations 1 GNUC (264, 0) = Some (16, 3)" by code_simp
  have n: "(16 :: uint32) \<noteq> 0" by simp
  have d: "(16 :: uint32) = drop_bit 5 529" by code_simp
  have c: "ctz GNUC 16 = Some 4" by code_simp
  have r: "shift_right 16 4 = Some 1" by code_simp
  have g: "binary_gap 529 5 4" by code_simp
  have b: "loop_body GNUC (16, 3) = Some (0, 4)" by code_simp
  note t = measured_runs_are_enclosed [OF h s i n]
  show ?thesis
    by (intro conjI s i t d c r g b)
qed

text \<open>
  C7, as the spec states it, fails: after the two strips of \<open>N = 9\<close> (binary 1001) the
  value is 4 (binary 100), which is not zero and whose lowest bit is not a one.
\<close>

theorem double_strip_lowest_bit_counterexample:
  "1 \<le> sint (9 :: int32) \<and> strip_trailing GNUC 9 = Some 4
     \<and> \<not> (bit (4 :: uint32) 0 \<or> (4 :: uint32) = 0)"
proof -
  have "strip_trailing GNUC 9 = Some 4" by code_simp
  then show ?thesis by (simp add: bit_0)
qed

text \<open>
  C7, amended. For every \<open>N \<ge> 1\<close>, immediately after the two strips the lowest bit
  of the value is a zero: the value is what is left of \<open>N\<close> above a one bit, and it
  is 0 exactly when \<open>N\<close> had at most one contiguous run of one bits.
\<close>

theorem double_strip_leaves_even_value:
  assumes "1 \<le> sint N"
  shows "\<exists>v. strip_trailing tc N = Some v \<and> \<not> bit v 0 \<and> (v = 0 \<longleftrightarrow> single_run N)
           \<and> (\<exists>p. 0 < p \<and> v = drop_bit p N \<and> bit N (p - 1))"
proof -
  obtain v p0 where s: "strip_trailing tc N = Some v" "at_position N p0 v"
    using strip_position[OF assms, of tc] by blast
  have "v = 0 \<longleftrightarrow> single_run N"
    using strip_trailing_0_iff[OF assms, of tc] s(1) by simp
  then show ?thesis
    using s(1) strip_trailing_even[OF assms s(1)] by blast
qed

theorem double_strip_leaves_even_value_witness:
  "strip_trailing GNUC 9 = Some 4 \<and> \<not> bit (4 :: uint32) 0 \<and> \<not> single_run 9
     \<and> strip_trailing GNUC 32 = Some 0 \<and> single_run 32"
proof -
  have h: "1 \<le> sint (9 :: int32)" "1 \<le> sint (32 :: int32)" by simp_all
  have s: "strip_trailing GNUC 9 = Some 4" "strip_trailing GNUC 32 = Some 0" by code_simp+
  show ?thesis
    using s double_strip_leaves_even_value [OF h(1), of GNUC]
      double_strip_leaves_even_value [OF h(2), of GNUC]
    by simp
qed

text \<open>The value falls strictly in every pass.\<close>

lemma reachable_decreases:
  assumes "1 \<le> sint N" "strip_trailing tc N = Some n0" "iterations k tc (n0, 0) = Some (n, mx)"
    "n \<noteq> 0"
  shows "\<exists>n' mx'. loop_body tc (n, mx) = Some (n', mx') \<and> unat n' < unat n"
proof -
  obtain p where "at_position N p n"
    using reachable_position[OF assms(1-3)] by blast
  note step = loop_step(1)[OF this assms(4), of tc mx]
  show ?thesis
    using step loop_body_decreases[OF _ step] assms(4) by simp
qed

text \<open>
  C8. For every \<open>N\<close> in \<open>[1, 2147483647]\<close> the \<open>while\<close> loop leaves after at most
  32 passes through its body, with the value \<open>solution\<close> returns; the value \<open>n\<close>
  falls strictly in every pass.
\<close>

theorem while_loop_at_most_32_iterations:
  assumes "1 \<le> sint N"
  shows "\<exists>n0 k mx. strip_trailing tc N = Some n0 \<and> k \<le> 32
           \<and> iterations k tc (n0, 0) = Some (0, mx) \<and> solution tc N = Inr mx
           \<and> (\<forall>j n m. iterations j tc (n0, 0) = Some (n, m) \<and> n \<noteq> 0 \<longrightarrow>
                 (\<exists>n' m'. loop_body tc (n, m) = Some (n', m') \<and> unat n' < unat n))"
proof -
  obtain n0 p0 where s: "strip_trailing tc N = Some n0" "at_position N p0 n0"
    using strip_position[OF assms, of tc] by blast
  obtain k mx where k: "p0 + k \<le> 32" "iterations k tc (n0, 0) = Some (0, mx)"
    "while_loop tc (n0, 0) = Some mx"
    using loop_exits[OF s(2), of tc 0] by blast
  have "solution tc N = Inr mx" using assms s(1) k(3) by (simp add: solution_def)
  moreover have "k \<le> 32" using k(1) by simp
  ultimately show ?thesis
    using s(1) k(2) reachable_decreases[OF assms s(1)] by blast
qed

theorem while_loop_at_most_32_iterations_witness:
  "strip_trailing GNUC 529 = Some 264 \<and> iterations 2 GNUC (264, 0) = Some (0, 4)
     \<and> solution GNUC 529 = Inr 4 \<and> loop_body GNUC (264, 0) = Some (16, 3)
     \<and> loop_body GNUC (16, 3) = Some (0, 4)
     \<and> (\<exists>n0 k mx. strip_trailing GNUC 529 = Some n0 \<and> k \<le> 32
           \<and> iterations k GNUC (n0, 0) = Some (0, mx) \<and> solution GNUC 529 = Inr mx)"
proof -
  have h: "1 \<le> sint (529 :: int32)" by simp
  have s: "strip_trailing GNUC 529 = Some 264" by code_simp
  have i: "iterations 2 GNUC (264, 0) = Some (0, 4)" by code_simp
  have r: "solution GNUC 529 = Inr 4" by code_simp
  have b: "loop_body GNUC (264, 0) = Some (16, 3)" "loop_body GNUC (16, 3) = Some (0, 4)"
    by code_simp+
  show ?thesis
    using s i r b while_loop_at_most_32_iterations [OF h, of GNUC] by blast
qed

text \<open>
  C9. For every \<open>N \<ge> 1\<close> whose binary representation has at most one contiguous
  run of one bits (every power of two and every all-ones pattern among them),
  \<open>solution(N)\<close> is 0.
\<close>

theorem single_run_has_no_gap:
  assumes "1 \<le> sint N" and "single_run N"
  shows "solution tc N = Inr 0"
  using assms strip_trailing_0_iff[OF assms(1), of tc]
  by (simp add: solution_def while_loop_0)

theorem single_run_has_no_gap_witness:
  "single_run 32 \<and> solution GNUC 32 = Inr 0
     \<and> single_run 0x7FFFFFFF \<and> solution PORTABLE 0x7FFFFFFF = Inr 0
     \<and> single_run 0x3F00 \<and> solution STRINGS_H 0x3F00 = Inr 0"
proof -
  have h: "1 \<le> sint (32 :: int32)" "1 \<le> sint (0x7FFFFFFF :: int32)" "1 \<le> sint (0x3F00 :: int32)"
    by simp_all
  have a: "(32 :: uint32) = push_bit 5 (mask 1)" by (simp add: mask_eq_exp_minus_1)
  have b: "(0x7FFFFFFF :: uint32) = push_bit 0 (mask 31)" by (simp add: mask_eq_exp_minus_1)
  have c: "(0x3F00 :: uint32) = push_bit 8 (mask 6)" by (simp add: mask_eq_exp_minus_1)
  have s: "single_run 32" "single_run 0x7FFFFFFF" "single_run 0x3F00"
  proof -
    show "single_run 32"
      unfolding single_run_def by (rule bexI[of _ 5], rule bexI[of _ 1], rule a) simp_all
    show "single_run 0x7FFFFFFF"
      unfolding single_run_def by (rule bexI[of _ 0], rule bexI[of _ 31], rule b) simp_all
    show "single_run 0x3F00"
      unfolding single_run_def by (rule bexI[of _ 8], rule bexI[of _ 6], rule c) simp_all
  qed
  show ?thesis
    using s single_run_has_no_gap [OF h(1) s(1), of GNUC]
      single_run_has_no_gap [OF h(2) s(2), of PORTABLE]
      single_run_has_no_gap [OF h(3) s(3), of STRINGS_H]
    by simp
qed

text \<open>
  The operands of \<open>ctz\<close>: the value itself, nonzero, and a complement whose bit 31 is
  set.
\<close>

lemma operands_at_position:
  assumes "at_position N p n" "n \<noteq> 0"
  shows "0 \<notin> set (ctz_operands tc n)
           \<and> (\<exists>n'. ctz_operands tc n = [n, NOT n'] \<and> bit (NOT n') 31)"
proof -
  define n' where "n' = drop_bit (count_trailing_zeros n) n"
  have "\<not> bit n 31" using assms(1) by (simp add: at_position_def not_bit_31_drop)
  then have b: "\<not> bit n' 31" unfolding n'_def by (rule not_bit_31_drop')
  then have nz: "NOT n' \<noteq> 0" by (rule not_all_ones)
  have "ctz_operands tc n = [n, NOT n']"
    using operands_defined[OF assms(2) nz[unfolded n'_def], of tc] by (simp add: n'_def)
  moreover have "bit (NOT n') 31" using b by (simp add: bit_not_iff)
  ultimately show ?thesis using assms(2) nz by auto
qed

lemma operands_initial:
  assumes "1 \<le> sint N"
  shows "0 \<notin> set (ctz_operands tc N)
           \<and> (\<exists>n'. ctz_operands tc N = [N, NOT n'] \<and> bit (NOT n') 31)"
proof -
  note N = positive_int32[OF assms]
  define n' where "n' = drop_bit (count_trailing_zeros N) N"
  have b: "\<not> bit n' 31" unfolding n'_def using N(2) by (rule not_bit_31_drop')
  then have nz: "NOT n' \<noteq> 0" by (rule not_all_ones)
  have "ctz_operands tc N = [N, NOT n']"
    using operands_defined[OF N(1) nz[unfolded n'_def], of tc] by (simp add: n'_def)
  moreover have "bit (NOT n') 31" using b by (simp add: bit_not_iff)
  ultimately show ?thesis using N(1) nz by auto
qed

text \<open>
  C10. For every \<open>N\<close> in \<open>[1, 2147483647]\<close>, no call of \<open>ctz\<close> made by
  \<open>solution(N)\<close> has a zero operand: before the loop and in every pass, the direct
  call has the nonzero value as its operand and the call through \<open>cto\<close> a complement
  with bit 31 set. So \<open>solution\<close> returns a value: the undefined result of the builtin
  at zero, and a shift by the sentinel 32, are never reached.
\<close>

theorem ctz_never_receives_zero:
  assumes "1 \<le> sint N"
  shows "\<exists>n0. strip_trailing tc N = Some n0
           \<and> 0 \<notin> set (ctz_operands tc N)
           \<and> (\<exists>n'. ctz_operands tc N = [N, NOT n'] \<and> bit (NOT n') 31)
           \<and> (\<forall>k n mx. iterations k tc (n0, 0) = Some (n, mx) \<and> n \<noteq> 0 \<longrightarrow>
                 0 \<notin> set (ctz_operands tc n)
                 \<and> (\<exists>n'. ctz_operands tc n = [n, NOT n'] \<and> bit (NOT n') 31))
           \<and> (\<exists>r. solution tc N = Inr r)"
proof -
  obtain n0 p0 where s: "strip_trailing tc N = Some n0" "at_position N p0 n0"
    using strip_position[OF assms, of tc] by blast
  have "0 \<notin> set (ctz_operands tc n)
          \<and> (\<exists>n'. ctz_operands tc n = [n, NOT n'] \<and> bit (NOT n') 31)"
    if it: "iterations k tc (n0, 0) = Some (n, mx)" and nn: "n \<noteq> 0" for k n mx
  proof -
    obtain p where "at_position N p n"
      using reachable_position[OF assms s(1) it] by blast
    then show ?thesis using nn by (rule operands_at_position)
  qed
  moreover have "\<exists>r. solution tc N = Inr r"
    using solution_result[OF assms, of tc] by simp
  ultimately show ?thesis using s(1) operands_initial[OF assms, of tc] by blast
qed

theorem ctz_never_receives_zero_witness:
  "strip_trailing GNUC 9 = Some 4 \<and> ctz_operands GNUC 9 = [9, 0xFFFFFFF6]
     \<and> 0 \<notin> set (ctz_operands GNUC 9)
     \<and> iterations 0 GNUC (4, 0) = Some (4, 0)
     \<and> ctz_operands GNUC 4 = [4, 0xFFFFFFFE] \<and> 0 \<notin> set (ctz_operands GNUC 4)
     \<and> (\<exists>r. solution GNUC 9 = Inr r)"
proof -
  have h: "1 \<le> sint (9 :: int32)" by simp
  have s: "strip_trailing GNUC 9 = Some 4" by code_simp
  have a: "ctz_operands GNUC 9 = [9, 0xFFFFFFF6]" by code_simp
  have b: "ctz_operands GNUC 4 = [4, 0xFFFFFFFE]" by code_simp
  have i: "iterations 0 GNUC (4, 0) = Some (4, 0)" by simp
  have n: "(4 :: uint32) \<noteq> 0" by simp
  from ctz_never_receives_zero [OF h, of GNUC] s
  have "0 \<notin> set (ctz_operands GNUC 9)"
    and "\<forall>k n mx. iterations k GNUC (4, 0) = Some (n, mx) \<and> n \<noteq> 0 \<longrightarrow>
           0 \<notin> set (ctz_operands GNUC n)"
    and "\<exists>r. solution GNUC 9 = Inr r"
    by auto
  then show ?thesis using s a b i n by blast
qed

end
